theory Spec2Isabelle
  imports Main "HOL-Library.Word" "HOL-Library.Signed_Division"
begin

unbundle bit_operations_syntax

section \<open>Data model of checksummer.go\<close>

type_synonym byte = "8 word"
type_synonym uint32 = "32 word"
type_synonym uint64 = "64 word"

text \<open>
  \<^verbatim>\<open>type digest [4]uint64\<close>: a fixed array of four 64-bit words, here the 4-tuple
  \<open>(d[0], d[1], d[2], d[3])\<close>. Go's \<^verbatim>\<open>uint64\<close> addition wraps, as \<open>+\<close> on \<open>64 word\<close> does.
\<close>

type_synonym digest = "uint64 \<times> uint64 \<times> uint64 \<times> uint64"

text \<open>
  A Go panic is a value: \<open>Panic msg\<close> is \<^verbatim>\<open>panic(msg)\<close> of the program, the other two are
  the run-time panics of an index or a slice expression out of range.
\<close>

datatype panic = Panic string | IndexOutOfRange | SliceBoundsOutOfRange

text \<open>The value of Go's \<^verbatim>\<open>error\<close> interface: \<open>None\<close> is \<^verbatim>\<open>nil\<close>.\<close>

type_synonym error = "string option"

text \<open>\<^verbatim>\<open>const Size = 32\<close> and \<^verbatim>\<open>const BlockSize = 4\<close>; Go's \<^verbatim>\<open>int\<close> is read as \<open>int\<close>.\<close>

definition Size :: int where
  "Size = 32"

definition BlockSize :: int where
  "BlockSize = 4"

section \<open>The library functions the code calls\<close>

text \<open>\<^verbatim>\<open>len(p)\<close>, an \<^verbatim>\<open>int\<close>.\<close>

definition len :: "'a list \<Rightarrow> int" where
  "len p = int (length p)"

text \<open>
  The slice expression \<^verbatim>\<open>p[i:j]\<close>. Go checks \<^verbatim>\<open>0 <= i <= j <= cap(p)\<close>; a list has no
  spare capacity, so the bound is its length.
\<close>

definition slice :: "'a list \<Rightarrow> int \<Rightarrow> int \<Rightarrow> panic + 'a list" where
  "slice p i j =
     (if 0 \<le> i \<and> i \<le> j \<and> j \<le> len p then Inr (take (nat (j - i)) (drop (nat i) p))
      else Inl SliceBoundsOutOfRange)"

text \<open>
  \<^verbatim>\<open>binary.LittleEndian.Uint32(b)\<close> of encoding/binary: the bounds check \<^verbatim>\<open>_ = b[3]\<close>, then
  \<^verbatim>\<open>uint32(b[0]) | uint32(b[1])<<8 | uint32(b[2])<<16 | uint32(b[3])<<24\<close>.
\<close>

definition Uint32 :: "byte list \<Rightarrow> panic + uint32" where
  "Uint32 b =
     (if length b \<le> 3 then Inl IndexOutOfRange
      else Inr (ucast (b ! 0) OR push_bit 8 (ucast (b ! 1)) OR push_bit 16 (ucast (b ! 2))
                OR push_bit 24 (ucast (b ! 3))))"

text \<open>
  \<^verbatim>\<open>binary.LittleEndian.PutUint64(b, v)\<close> of encoding/binary: the bounds check
  \<^verbatim>\<open>_ = b[7]\<close>, then \<^verbatim>\<open>b[k] = byte(v >> (8*k))\<close> for k = 0..7. The slice is written in
  place; the model returns its new contents.
\<close>

definition PutUint64 :: "byte list \<Rightarrow> uint64 \<Rightarrow> panic + byte list" where
  "PutUint64 b v =
     (if length b \<le> 7 then Inl IndexOutOfRange
      else Inr (b[0 := ucast v, 1 := ucast (drop_bit 8 v), 2 := ucast (drop_bit 16 v),
                  3 := ucast (drop_bit 24 v), 4 := ucast (drop_bit 32 v),
                  5 := ucast (drop_bit 40 v), 6 := ucast (drop_bit 48 v),
                  7 := ucast (drop_bit 56 v)]))"

text \<open>The verb \<^verbatim>\<open>%v\<close> of fmt.Sprintf on an \<^verbatim>\<open>int\<close>: its decimal digits, with a sign.\<close>

function decimal :: "nat \<Rightarrow> string" where
  "decimal n =
     (if n < 10 then [''0123456789'' ! n] else decimal (n div 10) @ [''0123456789'' ! (n mod 10)])"
  by pat_completeness auto
termination
  by (relation "measure id") auto

declare decimal.simps [simp del]

definition fmt_v :: "int \<Rightarrow> string" where
  "fmt_v k = (if k < 0 then CHR ''-'' # decimal (nat (- k)) else decimal (nat k))"

section \<open>The checksummer\<close>

text \<open>\<^verbatim>\<open>func (d *digest) Reset()\<close>: the state after the call.\<close>

definition digest_Reset :: "digest \<Rightarrow> digest" where
  "digest_Reset d = (0, 0, 0, 0)"

text \<open>\<^verbatim>\<open>func New()\<close>: \<^verbatim>\<open>new(digest)\<close> is the zero array, then \<^verbatim>\<open>d.Reset()\<close>.\<close>

definition New :: digest where
  "New = digest_Reset (0, 0, 0, 0)"

text \<open>
  The methods take the state of the receiver \<^verbatim>\<open>*d\<close> and return it, as it is after the
  call, with the result.
\<close>

definition digest_Size :: "digest \<Rightarrow> digest \<times> int" where
  "digest_Size d = (d, Size)"

definition digest_BlockSize :: "digest \<Rightarrow> digest \<times> int" where
  "digest_BlockSize d = (d, BlockSize)"

text \<open>
  The loop of \<^verbatim>\<open>update\<close>: \<^verbatim>\<open>for i := 0; i < len(p); i += BlockSize\<close> over the local
  variables a, b, c, d.
\<close>

function update_loop :: "byte list \<Rightarrow> int \<Rightarrow> digest \<Rightarrow> panic + digest" where
  "update_loop p i (a, b, c, d) =
     (if i < len p then
        (case slice p i (i + BlockSize) of
           Inl e \<Rightarrow> Inl e
         | Inr s \<Rightarrow>
             (case Uint32 s of
                Inl e \<Rightarrow> Inl e
              | Inr w \<Rightarrow>
                  (let a' = a + ucast w;
                       b' = b + a';
                       c' = c + b';
                       d' = d + c'
                   in update_loop p (i + BlockSize) (a', b', c', d'))))
      else Inr (a, b, c, d))"
  by pat_completeness auto
termination
  by (relation "measure (\<lambda>(p, i, dg). nat (len p - i))") (auto simp: BlockSize_def)

declare update_loop.simps [simp del]

text \<open>
  \<^verbatim>\<open>func update(dig digest, p []byte) digest\<close>. Go's \<^verbatim>\<open>%\<close> truncates towards zero
  (\<open>smod\<close>).
\<close>

definition update :: "digest \<Rightarrow> byte list \<Rightarrow> panic + digest" where
  "update dig p =
     (case dig of (a, b, c, d) \<Rightarrow>
        if len p smod BlockSize \<noteq> 0
        then Inl (Panic (''Write to Fletcher64x4 checksummer must be a multiple of ''
                         @ fmt_v BlockSize @ '' bytes.''))
        else update_loop p 0 (a, b, c, d))"

text \<open>
  \<^verbatim>\<open>func (d *digest) Write(p []byte) (n int, err error)\<close>: \<^verbatim>\<open>*d = update(*d, p)\<close> assigns
  only when \<^verbatim>\<open>update\<close> returns, so a panic leaves \<^verbatim>\<open>*d\<close> as it was.
\<close>

definition digest_Write :: "digest \<Rightarrow> byte list \<Rightarrow> digest \<times> (panic + int \<times> error)" where
  "digest_Write d p =
     (case update d p of
        Inl e \<Rightarrow> (d, Inl e)
      | Inr d' \<Rightarrow> (d', Inr (len p, None)))"

text \<open>
  \<^verbatim>\<open>func (d *digest) Sum(in []byte) []byte\<close>: the 8-byte scratch slice \<^verbatim>\<open>add\<close> is
  rewritten before each \<^verbatim>\<open>append\<close>, which copies it.
\<close>

definition digest_Sum :: "digest \<Rightarrow> byte list \<Rightarrow> digest \<times> (panic + byte list)" where
  "digest_Sum d inp =
     (d, case d of (d0, d1, d2, d3) \<Rightarrow>
        (let add = replicate 8 0 in
         case PutUint64 add d0 of Inl e \<Rightarrow> Inl e | Inr add \<Rightarrow>
         (let ret = inp @ add in
          case PutUint64 add d1 of Inl e \<Rightarrow> Inl e | Inr add \<Rightarrow>
          (let ret = ret @ add in
           case PutUint64 add d2 of Inl e \<Rightarrow> Inl e | Inr add \<Rightarrow>
           (let ret = ret @ add in
            case PutUint64 add d3 of Inl e \<Rightarrow> Inl e | Inr add \<Rightarrow>
            (let ret = ret @ add in Inr ret))))))"

text \<open>\<^verbatim>\<open>func (d *digest) Sum64x4() [4]uint64\<close>.\<close>

definition digest_Sum64x4 :: "digest \<Rightarrow> digest \<times> digest" where
  "digest_Sum64x4 d = (d, d)"

text \<open>
  A caller's sequence of \<^verbatim>\<open>Write\<close> calls on one accumulator, one per chunk: the state
  after the last call that ran, and the panic that ended the sequence, if one did.
\<close>

fun Writes :: "digest \<Rightarrow> byte list list \<Rightarrow> digest \<times> panic option" where
  "Writes d [] = (d, None)"
| "Writes d (p # ps) =
     (case digest_Write d p of
        (d', Inl e) \<Rightarrow> (d', Some e)
      | (d', Inr r) \<Rightarrow> Writes d' ps)"

section \<open>The specification's reading of the algorithm\<close>

text \<open>
  These definitions follow the words of the specification, not the code, and work on
  natural numbers: the input cut into consecutive non-overlapping 4-byte words, a
  word's little-endian value, the four assignments of the recurrence modulo \<open>2 ^ 64\<close>,
  and the little-endian serialisation of a 64-bit value.
\<close>

fun spec_words :: "byte list \<Rightarrow> byte list list" where
  "spec_words (b0 # b1 # b2 # b3 # rest) = [b0, b1, b2, b3] # spec_words rest"
| "spec_words _ = []"

fun spec_le :: "byte list \<Rightarrow> nat" where
  "spec_le [] = 0"
| "spec_le (b # bs) = unat b + 256 * spec_le bs"

definition spec_step :: "nat \<times> nat \<times> nat \<times> nat \<Rightarrow> nat \<Rightarrow> nat \<times> nat \<times> nat \<times> nat" where
  "spec_step s w =
     (case s of (a, b, c, d) \<Rightarrow>
        (let a' = (a + w) mod 2 ^ 64;
             b' = (b + a') mod 2 ^ 64;
             c' = (c + b') mod 2 ^ 64;
             d' = (d + c') mod 2 ^ 64
         in (a', b', c', d')))"

definition digest_nats :: "digest \<Rightarrow> nat \<times> nat \<times> nat \<times> nat" where
  "digest_nats s = (case s of (a, b, c, d) \<Rightarrow> (unat a, unat b, unat c, unat d))"

fun spec_le_bytes :: "nat \<Rightarrow> nat \<Rightarrow> byte list" where
  "spec_le_bytes 0 v = []"
| "spec_le_bytes (Suc n) v = of_nat (v mod 256) # spec_le_bytes n (v div 256)"

definition spec_LE64 :: "uint64 \<Rightarrow> byte list" where
  "spec_LE64 v = spec_le_bytes 8 (unat v)"

section \<open>The loop as a recursion on the input\<close>

text \<open>
  Auxiliary definitions for the proofs: the expression \<open>Uint32\<close> computes on four
  bytes, one round of the loop body, and the loop read as a recursion that consumes
  four bytes of the input per round.
\<close>

definition le32 :: "byte \<Rightarrow> byte \<Rightarrow> byte \<Rightarrow> byte \<Rightarrow> uint32" where
  "le32 b0 b1 b2 b3 =
     ucast b0 OR push_bit 8 (ucast b1) OR push_bit 16 (ucast b2) OR push_bit 24 (ucast b3)"

definition step :: "digest \<Rightarrow> uint32 \<Rightarrow> digest" where
  "step s w =
     (case s of (a, b, c, d) \<Rightarrow>
        (let a' = a + ucast w; b' = b + a'; c' = c + b'; d' = d + c' in (a', b', c', d')))"

fun cascade :: "digest \<Rightarrow> byte list \<Rightarrow> digest" where
  "cascade s (b0 # b1 # b2 # b3 # rest) = cascade (step s (le32 b0 b1 b2 b3)) rest"
| "cascade s _ = s"

section \<open>Decoding a word\<close>

lemma Uint32_four: "Uint32 [b0, b1, b2, b3] = Inr (le32 b0 b1 b2 b3)"
  by (simp add: Uint32_def le32_def)

lemma le32_plus:
  "le32 b0 b1 b2 b3 =
     ucast b0 + (push_bit 8 (ucast b1) + (push_bit 16 (ucast b2) + push_bit 24 (ucast b3)))"
proof -
  let ?p8 = "push_bit 8 (ucast b1) :: uint32"
  let ?p16 = "push_bit 16 (ucast b2) :: uint32"
  let ?p24 = "push_bit 24 (ucast b3) :: uint32"
  have 3: "?p16 OR ?p24 = ?p16 + ?p24"
    by (rule disjunctive_add [symmetric]) (auto simp: bit_simps dest: bit_imp_le_length)
  have 2: "?p8 OR (?p16 OR ?p24) = ?p8 + (?p16 OR ?p24)"
    by (rule disjunctive_add [symmetric]) (auto simp: bit_simps dest: bit_imp_le_length)
  have 1: "ucast b0 OR (?p8 OR (?p16 OR ?p24)) = ucast b0 + (?p8 OR (?p16 OR ?p24))"
    by (rule disjunctive_add [symmetric]) (auto simp: bit_simps dest: bit_imp_le_length)
  show ?thesis
    unfolding le32_def by (subst 1, subst 2, subst 3) (rule refl)
qed

lemma unat_byte_lt: "unat (b :: byte) < 256"
  using unsigned_less [of b, where 'a = nat] by simp

lemma unat_le32:
  "unat (le32 b0 b1 b2 b3) = unat b0 + 2 ^ 8 * unat b1 + 2 ^ 16 * unat b2 + 2 ^ 24 * unat b3"
proof -
  have "unat b0 < 256" "unat b1 < 256" "unat b2 < 256" "unat b3 < 256"
    by (rule unat_byte_lt)+
  then show ?thesis
    by (simp add: le32_plus unat_word_ariths unsigned_push_bit_eq unsigned_ucast_eq
        take_bit_nat_eq_self push_bit_eq_mult take_bit_eq_mod)
qed

section \<open>The loop of update\<close>

lemma len_smod: "len p smod BlockSize = 0 \<longleftrightarrow> length p mod 4 = 0"
proof -
  have "int (length p) mod 4 = 0 \<longleftrightarrow> length p mod 4 = 0"
    by presburger
  then show ?thesis
    by (auto simp: len_def BlockSize_def smod_int_alt_def)
qed


lemma slice_word:
  "slice (pre @ b0 # b1 # b2 # b3 # rest) (len pre) (len pre + BlockSize) = Inr [b0, b1, b2, b3]"
  by (simp add: slice_def len_def BlockSize_def)

lemma update_loop_cascade:
  "length q mod 4 = 0 \<Longrightarrow> update_loop (pre @ q) (len pre) s = Inr (cascade s q)"
proof (induction s q arbitrary: pre rule: cascade.induct)
  case (1 s b0 b1 b2 b3 rest)
  obtain a b c d where s: "s = (a, b, c, d)"
    by (cases s) auto
  from "1.prems" have rest: "length rest mod 4 = 0"
    by simp
  have idx: "len pre + BlockSize = len (pre @ [b0, b1, b2, b3])"
    by (simp add: len_def BlockSize_def)
  have "update_loop (pre @ b0 # b1 # b2 # b3 # rest) (len pre) s
      = update_loop ((pre @ [b0, b1, b2, b3]) @ rest) (len (pre @ [b0, b1, b2, b3]))
          (step s (le32 b0 b1 b2 b3))"
    unfolding s
    by (subst update_loop.simps)
       (simp add: slice_word Uint32_four step_def Let_def idx [symmetric], simp add: len_def)
  also have "\<dots> = Inr (cascade (step s (le32 b0 b1 b2 b3)) rest)"
    by (rule "1.IH" [OF rest])
  finally show ?case
    by simp
qed (auto simp: update_loop.simps len_def split: prod.splits)


lemma fmt_v_BlockSize: "fmt_v BlockSize = ''4''"
  by (simp add: fmt_v_def BlockSize_def decimal.simps)

lemma len_Nil: "len [] = 0"
  by (simp add: len_def)

lemma update_aligned: "length p mod 4 = 0 \<Longrightarrow> update dg p = Inr (cascade dg p)"
  using update_loop_cascade [of p "[]" dg]
  by (simp add: update_def len_smod len_Nil split: prod.splits)

lemma update_misaligned:
  "length p mod 4 \<noteq> 0 \<Longrightarrow>
   update dg p = Inl (Panic ''Write to Fletcher64x4 checksummer must be a multiple of 4 bytes.'')"
  by (simp add: update_def len_smod fmt_v_BlockSize split: prod.splits)

lemma Write_aligned:
  "length p mod 4 = 0 \<Longrightarrow> digest_Write dg p = (cascade dg p, Inr (len p, None))"
  by (simp add: digest_Write_def update_aligned)

lemma Write_misaligned:
  "length p mod 4 \<noteq> 0 \<Longrightarrow>
   digest_Write dg p =
     (dg, Inl (Panic ''Write to Fletcher64x4 checksummer must be a multiple of 4 bytes.''))"
  by (simp add: digest_Write_def update_misaligned)

lemma cascade_append:
  "length q1 mod 4 = 0 \<Longrightarrow> cascade s (q1 @ q2) = cascade (cascade s q1) q2"
  by (induction s q1 rule: cascade.induct) auto

lemma length_concat_aligned:
  "\<forall>c \<in> set cs. length c mod 4 = 0 \<Longrightarrow> length (concat cs) mod 4 = 0"
  by (induction cs) (auto simp: mod_add_eq [symmetric] simp del: mod_add_eq)

lemma Writes_aligned:
  "\<forall>c \<in> set cs. length c mod 4 = 0 \<Longrightarrow> Writes d cs = (cascade d (concat cs), None)"
  by (induction cs arbitrary: d) (auto simp: Write_aligned cascade_append)

section \<open>The code against the specification's recurrence\<close>

lemma unat_ucast_32_64: "unat (ucast (w :: uint32) :: uint64) = unat w"
proof -
  have "unat w < 2 ^ 32"
    using unsigned_less [of w, where 'a = nat] by simp
  then have "unat w < 2 ^ 64"
    by simp
  then show ?thesis
    by (simp add: unsigned_ucast_eq take_bit_nat_eq_self)
qed

lemma unat_plus_64: "unat (x + y :: uint64) = (unat x + unat y) mod 2 ^ 64"
  by (simp add: unat_word_ariths)

lemma digest_nats_step: "digest_nats (step s w) = spec_step (digest_nats s) (unat w)"
  by (cases s)
     (simp add: digest_nats_def step_def spec_step_def Let_def unat_plus_64 unat_ucast_32_64
        del: unsigned_ucast_eq)

lemma spec_le_le32: "spec_le [b0, b1, b2, b3] = unat (le32 b0 b1 b2 b3)"
  by (simp add: unat_le32)

lemma digest_nats_cascade:
  "digest_nats (cascade s q) = foldl spec_step (digest_nats s) (map spec_le (spec_words q))"
  by (induction s q rule: cascade.induct) (simp_all add: digest_nats_step unat_le32 add.assoc)

lemma concat_spec_words: "length q mod 4 = 0 \<Longrightarrow> concat (spec_words q) = q"
  by (induction q rule: spec_words.induct) auto

lemma length_spec_words: "w \<in> set (spec_words q) \<Longrightarrow> length w = 4"
  by (induction q rule: spec_words.induct) auto




section \<open>Serialising the state\<close>

lemma length_spec_le_bytes: "length (spec_le_bytes n v) = n"
  by (induction n arbitrary: v) auto

lemma spec_le_spec_le_bytes: "spec_le (spec_le_bytes n v) = v mod 256 ^ n"
proof (induction n arbitrary: v)
  case 0
  show ?case by simp
next
  case (Suc n)
  have "unat (of_nat (v mod 256) :: byte) = v mod 256"
    by (simp add: unat_of_nat)
  with Suc show ?case
    by (simp add: mod_mult2_eq)
qed

lemma byte_of_shift:
  "(ucast (drop_bit n (v :: uint64)) :: byte) = of_nat (unat v div 2 ^ n mod 256)"
proof -
  have "unat (drop_bit n v) = unat v div 2 ^ n"
    by (simp add: unat_drop_bit_eq drop_bit_nat_def)
  then show ?thesis
    by (simp add: word_unat_eq_iff unsigned_ucast_eq unat_of_nat take_bit_eq_mod)
qed

lemma byte_of_low: "(ucast (v :: uint64) :: byte) = of_nat (unat v mod 256)"
  using byte_of_shift [of 0 v] by simp

lemma spec_le_bytes_8:
  "spec_le_bytes 8 v =
     [of_nat (v mod 256), of_nat (v div 2 ^ 8 mod 256), of_nat (v div 2 ^ 16 mod 256),
      of_nat (v div 2 ^ 24 mod 256), of_nat (v div 2 ^ 32 mod 256),
      of_nat (v div 2 ^ 40 mod 256), of_nat (v div 2 ^ 48 mod 256),
      of_nat (v div 2 ^ 56 mod 256)]"
proof -
  have 8: "(8::nat) = Suc (Suc (Suc (Suc (Suc (Suc (Suc (Suc 0)))))))"
    by simp
  show ?thesis
    unfolding 8 spec_le_bytes.simps by (simp add: div_mult2_eq [symmetric])
qed

lemma spec_LE64_bytes:
  "spec_LE64 v =
     [ucast v, ucast (drop_bit 8 v), ucast (drop_bit 16 v), ucast (drop_bit 24 v),
      ucast (drop_bit 32 v), ucast (drop_bit 40 v), ucast (drop_bit 48 v),
      ucast (drop_bit 56 v)]"
  by (simp only: spec_LE64_def spec_le_bytes_8 byte_of_shift [symmetric] byte_of_low [symmetric])

lemma length_spec_LE64: "length (spec_LE64 v) = 8"
  by (simp add: spec_LE64_def length_spec_le_bytes)

lemma PutUint64_LE64: "length b = 8 \<Longrightarrow> PutUint64 b v = Inr (spec_LE64 v)"
proof -
  assume "length b = 8"
  then obtain x0 x1 x2 x3 x4 x5 x6 x7 where "b = [x0, x1, x2, x3, x4, x5, x6, x7]"
    by (auto simp: numeral_eq_Suc length_Suc_conv)
  then show ?thesis
    by (simp add: PutUint64_def spec_LE64_bytes del: unsigned_ucast_eq)
qed

lemma Sum_eq:
  "digest_Sum (a, b, c, d) inp =
     ((a, b, c, d), Inr (inp @ spec_LE64 a @ spec_LE64 b @ spec_LE64 c @ spec_LE64 d))"
  by (simp add: digest_Sum_def PutUint64_LE64 length_spec_LE64)

lemma spec_le_spec_LE64: "spec_le (spec_LE64 v) = unat v"
proof -
  have "unat v < 2 ^ 64"
    using unsigned_less [of v, where 'a = nat] by simp
  moreover have "(256 :: nat) ^ 8 = 2 ^ 64"
    by simp
  ultimately show ?thesis
    by (simp only: spec_LE64_def spec_le_spec_le_bytes mod_less)
qed

lemma list_all_spec_words: "list_all (\<lambda>w. length w = 4) (spec_words q)"
  by (induction q rule: spec_words.induct) auto

section \<open>The repository's tests\<close>

text \<open>
  \<^verbatim>\<open>TestChecksummer1\<close> and \<^verbatim>\<open>TestChecksummer2\<close> of checksummer_test.go, on the model:
  the expected words after 4, 8 and 12 bytes and the expected bytes of \<^verbatim>\<open>Sum\<close>.
\<close>

lemma TestChecksummer1:
  "digest_Write New [1, 2, 3, 4]
     = ((0x4030201, 0x4030201, 0x4030201, 0x4030201), Inr (4, None))"
  by code_simp

lemma TestChecksummer2_8_bytes:
  "digest_Write New [1, 2, 3, 4, 5, 6, 7, 8]
     = ((0xc0a0806, 0x100d0a07, 0x14100c08, 0x18130e09), Inr (8, None))"
  by code_simp

lemma TestChecksummer2_12_bytes:
  "Writes New [[1, 2, 3, 4, 5, 6, 7, 8], [2, 4, 6, 8]]
     = ((0x14100c08, 0x241d160f, 0x382d2217, 0x50403020), None)"
  by code_simp

lemma TestChecksummer2_Sum:
  "digest_Sum (0x14100c08, 0x241d160f, 0x382d2217, 0x50403020) []
     = ((0x14100c08, 0x241d160f, 0x382d2217, 0x50403020),
        Inr [8, 12, 16, 20, 0, 0, 0, 0, 15, 22, 29, 36, 0, 0, 0, 0,
             23, 34, 45, 56, 0, 0, 0, 0, 32, 48, 64, 80, 0, 0, 0, 0])"
  by code_simp

text \<open>Overflow wraps: adding the word 1 to \<open>2 ^ 64 - 1\<close> gives 0, and no panic.\<close>

lemma update_wraps:
  "update (0xFFFFFFFFFFFFFFFF, 0xFFFFFFFFFFFFFFFF, 0, 1) [1, 0, 0, 0]
     = Inr (0, 0xFFFFFFFFFFFFFFFF, 0xFFFFFFFFFFFFFFFF, 0)"
  by code_simp

section \<open>The claims\<close>

text \<open>
  C1. For every byte sequence whose length is a multiple of 4, \<^verbatim>\<open>update\<close> (and \<^verbatim>\<open>Write\<close>,
  which stores its result) returns without a panic, and the state it returns is the
  fold of the specification's recurrence over the input's consecutive non-overlapping
  4-byte words, taken in order and each read as an unsigned little-endian integer:
  \<open>a := a + w\<close>, \<open>b := b + a\<close>, \<open>c := c + b\<close>, \<open>d := d + c\<close>, each modulo \<open>2 ^ 64\<close>. The
  words are the input itself, cut every four bytes.
\<close>

theorem update_folds_words:
  assumes "length p mod 4 = 0"
  shows "\<exists>dg'. update dg p = Inr dg'
           \<and> digest_Write dg p = (dg', Inr (len p, None))
           \<and> digest_nats dg' = foldl spec_step (digest_nats dg) (map spec_le (spec_words p))
           \<and> concat (spec_words p) = p
           \<and> list_all (\<lambda>w. length w = 4) (spec_words p)"
  using assms
  by (simp add: update_aligned Write_aligned digest_nats_cascade concat_spec_words
      list_all_spec_words)

theorem update_folds_words_witness:
  "length [1, 2, 3, 4, 5, 6, 7, 8 :: byte] mod 4 = 0
   \<and> (\<exists>dg'. update (0xFFFFFFFFFFFFFFFF, 0xFFFFFFFFFFFFFFFF, 0, 1) [1, 2, 3, 4, 5, 6, 7, 8] = Inr dg'
           \<and> digest_Write (0xFFFFFFFFFFFFFFFF, 0xFFFFFFFFFFFFFFFF, 0, 1) [1, 2, 3, 4, 5, 6, 7, 8]
               = (dg', Inr (len [1, 2, 3, 4, 5, 6, 7, 8 :: byte], None))
           \<and> digest_nats dg'
               = foldl spec_step (digest_nats (0xFFFFFFFFFFFFFFFF, 0xFFFFFFFFFFFFFFFF, 0, 1))
                   (map spec_le (spec_words [1, 2, 3, 4, 5, 6, 7, 8]))
           \<and> concat (spec_words [1, 2, 3, 4, 5, 6, 7, 8]) = [1, 2, 3, 4, 5, 6, 7, 8]
           \<and> list_all (\<lambda>w. length w = 4) (spec_words [1, 2, 3, 4, 5, 6, 7, 8 :: byte]))"
proof -
  have h: "length [1, 2, 3, 4, 5, 6, 7, 8 :: byte] mod 4 = 0"
    by simp
  show ?thesis
    by (rule conjI [OF h update_folds_words [OF h]])
qed

text \<open>
  C2. When every chunk has a length that is a multiple of 4, the \<^verbatim>\<open>Write\<close> calls on the
  chunks, one after the other, all succeed and end in the state that one \<^verbatim>\<open>Write\<close> of
  their concatenation reaches from the same starting state; that one call succeeds too.
\<close>

theorem split_write_equivalence:
  assumes "\<forall>c \<in> set cs. length c mod 4 = 0"
  shows "Writes d cs = (fst (digest_Write d (concat cs)), None)
         \<and> snd (digest_Write d (concat cs)) = Inr (len (concat cs), None)"
  using assms by (simp add: Writes_aligned Write_aligned length_concat_aligned)

theorem split_write_equivalence_witness:
  "length [1, 2, 3, 4 :: byte] mod 4 = 0 \<and> length [5, 6, 7, 8 :: byte] mod 4 = 0
   \<and> Writes New [[1, 2, 3, 4], [5, 6, 7, 8]]
       = (fst (digest_Write New (concat [[1, 2, 3, 4], [5, 6, 7, 8]])), None)
   \<and> snd (digest_Write New (concat [[1, 2, 3, 4], [5, 6, 7, 8]]))
       = Inr (len (concat [[1, 2, 3, 4], [5, 6, 7, 8 :: byte]]), None)"
proof -
  have h: "\<forall>c \<in> set [[1, 2, 3, 4], [5, 6, 7, 8 :: byte]]. length c mod 4 = 0"
    by simp
  show ?thesis
    using split_write_equivalence [OF h, of New] by simp
qed

text \<open>
  C3. \<^verbatim>\<open>Write\<close> panics if and only if the length of the input is not a multiple of 4, and
  the panic carries the message that names the block size of 4 bytes; on every input
  whose length is a multiple of 4, the empty one included, it returns the length of the
  input as the count and a nil error.
\<close>

theorem Write_fails_iff_misaligned:
  "snd (digest_Write d p) =
     (if length p mod 4 = 0 then Inr (len p, None)
      else Inl (Panic ''Write to Fletcher64x4 checksummer must be a multiple of 4 bytes.''))
   \<and> ((\<exists>e. snd (digest_Write d p) = Inl e) \<longleftrightarrow> length p mod 4 \<noteq> 0)"
  by (cases "length p mod 4 = 0") (simp_all add: Write_aligned Write_misaligned)

theorem Write_fails_iff_misaligned_witness:
  "snd (digest_Write New [1, 2, 3]) =
     Inl (Panic ''Write to Fletcher64x4 checksummer must be a multiple of 4 bytes.'')
   \<and> snd (digest_Write New [1, 2, 3, 4]) = Inr (4, None)
   \<and> snd (digest_Write New []) = Inr (0, None)"
  using Write_fails_iff_misaligned [of New "[1, 2, 3]"]
    Write_fails_iff_misaligned [of New "[1, 2, 3, 4]"]
    Write_fails_iff_misaligned [of New "[]"]
  by (simp add: len_def)

text \<open>
  C4. For every state of the accumulator and every input whose length is not a multiple
  of 4, \<^verbatim>\<open>Write\<close> panics and leaves the four words as they were before the call.
\<close>

theorem misaligned_Write_keeps_state:
  assumes "length p mod 4 \<noteq> 0"
  shows "fst (digest_Write d p) = d \<and> (\<exists>e. snd (digest_Write d p) = Inl e)"
  using assms by (simp add: Write_misaligned)

theorem misaligned_Write_keeps_state_witness:
  "length [1, 2, 3, 4, 5 :: byte] mod 4 \<noteq> 0
   \<and> fst (digest_Write (1, 2, 3, 4) [1, 2, 3, 4, 5]) = (1, 2, 3, 4)
   \<and> (\<exists>e. snd (digest_Write (1, 2, 3, 4) [1, 2, 3, 4, 5]) = Inl e)"
proof -
  have h: "length [1, 2, 3, 4, 5 :: byte] mod 4 \<noteq> 0"
    by simp
  show ?thesis
    by (rule conjI [OF h misaligned_Write_keeps_state [OF h]])
qed

text \<open>
  C5. For every state \<open>(a, b, c, d)\<close> and every buffer, \<^verbatim>\<open>Sum\<close> returns the buffer followed
  by exactly 32 bytes, the 8-byte little-endian serialisations of a, b, c and d in that
  order; the bytes already in the buffer are kept, the state is not changed, and a
  second \<^verbatim>\<open>Sum\<close> on the returned buffer gives the buffer followed by the 32-byte digest
  twice.
\<close>

theorem Sum_appends_digest:
  "digest_Sum (a, b, c, d) inp =
     ((a, b, c, d), Inr (inp @ spec_LE64 a @ spec_LE64 b @ spec_LE64 c @ spec_LE64 d))
   \<and> length (spec_LE64 a @ spec_LE64 b @ spec_LE64 c @ spec_LE64 d) = 32
   \<and> map spec_le [spec_LE64 a, spec_LE64 b, spec_LE64 c, spec_LE64 d]
       = [unat a, unat b, unat c, unat d]
   \<and> (\<exists>r1 r2 dg. digest_Sum (a, b, c, d) inp = ((a, b, c, d), Inr r1)
         \<and> digest_Sum (a, b, c, d) r1 = ((a, b, c, d), Inr r2)
         \<and> digest_Sum (a, b, c, d) [] = ((a, b, c, d), Inr dg)
         \<and> length r1 = length inp + 32 \<and> take (length inp) r1 = inp
         \<and> r2 = inp @ dg @ dg)"
  by (simp add: Sum_eq length_spec_LE64 spec_le_spec_LE64)

theorem Sum_appends_digest_witness:
  "digest_Sum (0x14100c08, 0x241d160f, 0x382d2217, 0x50403020) [7, 9] =
     ((0x14100c08, 0x241d160f, 0x382d2217, 0x50403020),
      Inr [7, 9, 8, 12, 16, 20, 0, 0, 0, 0, 15, 22, 29, 36, 0, 0, 0, 0,
           23, 34, 45, 56, 0, 0, 0, 0, 32, 48, 64, 80, 0, 0, 0, 0])"
  using Sum_appends_digest [of "0x14100c08" "0x241d160f" "0x382d2217" "0x50403020" "[7, 9]"]
  by (simp add: spec_LE64_def spec_le_bytes_8)

text \<open>
  C6. Writing the four bytes of one word to a freshly constructed accumulator succeeds
  and leaves all four words equal to the little-endian value of those bytes, which
  \<^verbatim>\<open>Sum64x4\<close> returns; the bytes 1, 2, 3, 4 give \<open>0x04030201\<close> four times.
\<close>

theorem single_block_fill:
  "(\<exists>V. digest_Write New [b0, b1, b2, b3] = ((V, V, V, V), Inr (4, None))
        \<and> snd (digest_Sum64x4 (V, V, V, V)) = (V, V, V, V)
        \<and> unat V = spec_le [b0, b1, b2, b3])
   \<and> snd (digest_Sum64x4 (fst (digest_Write New [1, 2, 3, 4])))
       = (0x04030201, 0x04030201, 0x04030201, 0x04030201)"
proof -
  let ?V = "ucast (le32 b0 b1 b2 b3) :: uint64"
  have "digest_Write New [b0, b1, b2, b3] = ((?V, ?V, ?V, ?V), Inr (4, None))"
    by (simp add: Write_aligned New_def digest_Reset_def step_def len_def Let_def
        del: unsigned_ucast_eq)
  moreover have "unat ?V = spec_le [b0, b1, b2, b3]"
    by (simp only: unat_ucast_32_64 spec_le_le32)
  moreover have "snd (digest_Sum64x4 (fst (digest_Write New [1, 2, 3, 4])))
      = (0x04030201, 0x04030201, 0x04030201, 0x04030201)"
    by code_simp
  ultimately show ?thesis
    by (simp add: digest_Sum64x4_def del: unsigned_ucast_eq)
qed

theorem single_block_fill_witness:
  "\<exists>V. digest_Write New [255, 255, 255, 255] = ((V, V, V, V), Inr (4, None))
        \<and> snd (digest_Sum64x4 (V, V, V, V)) = (V, V, V, V)
        \<and> unat V = spec_le [255, 255, 255, 255]"
  using single_block_fill [of 255 255 255 255] by blast

text \<open>
  C7. After any sequence of writes, \<^verbatim>\<open>Reset\<close> sets the state to \<open>(0, 0, 0, 0)\<close>, which
  \<^verbatim>\<open>Sum64x4\<close> then returns: the state of a freshly constructed accumulator.
\<close>

theorem Reset_clears_state:
  "digest_Reset (fst (Writes d cs)) = (0, 0, 0, 0)
   \<and> snd (digest_Sum64x4 (digest_Reset (fst (Writes d cs)))) = (0, 0, 0, 0)
   \<and> digest_Reset (fst (Writes d cs)) = New
   \<and> digest_Sum64x4 New = (New, (0, 0, 0, 0))"
  by (simp add: digest_Reset_def digest_Sum64x4_def New_def)

theorem Reset_clears_state_witness:
  "digest_Reset (fst (Writes New [[1, 2, 3, 4], [5, 6, 7, 8]])) = (0, 0, 0, 0)
   \<and> snd (digest_Sum64x4 (digest_Reset (fst (Writes New [[1, 2, 3, 4], [5, 6, 7, 8]])))) = (0, 0, 0, 0)
   \<and> digest_Reset (fst (Writes New [[1, 2, 3, 4], [5, 6, 7, 8]])) = New
   \<and> digest_Sum64x4 New = (New, (0, 0, 0, 0))"
  by (rule Reset_clears_state [of New "[[1, 2, 3, 4], [5, 6, 7, 8]]"])

text \<open>
  C8. Two freshly constructed accumulators that are fed the same bytes, each in its own
  chunks of lengths that are multiples of 4, end in the same state without a panic,
  and \<^verbatim>\<open>Sum\<close> on equal buffers returns the same bytes for both.
\<close>

theorem determinism:
  assumes "\<forall>c \<in> set cs1. length c mod 4 = 0"
    and "\<forall>c \<in> set cs2. length c mod 4 = 0"
    and "concat cs1 = concat cs2"
  shows "Writes New cs1 = Writes New cs2
         \<and> snd (Writes New cs1) = None
         \<and> digest_Sum (fst (Writes New cs1)) inp = digest_Sum (fst (Writes New cs2)) inp
         \<and> (\<exists>bs. snd (digest_Sum (fst (Writes New cs1)) inp) = Inr bs)"
  using assms by (cases "cascade New (concat cs2)") (simp add: Writes_aligned Sum_eq)

theorem determinism_witness:
  "length [1, 2, 3, 4, 5, 6, 7, 8 :: byte] mod 4 = 0 \<and> length [2, 4, 6, 8 :: byte] mod 4 = 0
   \<and> length [1, 2, 3, 4 :: byte] mod 4 = 0 \<and> length ([] :: byte list) mod 4 = 0
   \<and> length [5, 6, 7, 8, 2, 4, 6, 8 :: byte] mod 4 = 0
   \<and> concat [[1, 2, 3, 4, 5, 6, 7, 8], [2, 4, 6, 8 :: byte]]
       = concat [[1, 2, 3, 4], [], [5, 6, 7, 8, 2, 4, 6, 8]]
   \<and> Writes New [[1, 2, 3, 4, 5, 6, 7, 8], [2, 4, 6, 8]]
       = Writes New [[1, 2, 3, 4], [], [5, 6, 7, 8, 2, 4, 6, 8]]
   \<and> snd (Writes New [[1, 2, 3, 4, 5, 6, 7, 8], [2, 4, 6, 8]]) = None
   \<and> digest_Sum (fst (Writes New [[1, 2, 3, 4, 5, 6, 7, 8], [2, 4, 6, 8]])) [7]
       = digest_Sum (fst (Writes New [[1, 2, 3, 4], [], [5, 6, 7, 8, 2, 4, 6, 8]])) [7]
   \<and> (\<exists>bs. snd (digest_Sum (fst (Writes New [[1, 2, 3, 4, 5, 6, 7, 8], [2, 4, 6, 8]])) [7])
         = Inr bs)"
proof -
  have h1: "\<forall>c \<in> set [[1, 2, 3, 4, 5, 6, 7, 8], [2, 4, 6, 8 :: byte]]. length c mod 4 = 0"
    by simp
  have h2: "\<forall>c \<in> set [[1, 2, 3, 4], [], [5, 6, 7, 8, 2, 4, 6, 8 :: byte]]. length c mod 4 = 0"
    by simp
  have h3: "concat [[1, 2, 3, 4, 5, 6, 7, 8], [2, 4, 6, 8 :: byte]]
      = concat [[1, 2, 3, 4], [], [5, 6, 7, 8, 2, 4, 6, 8]]"
    by simp
  have l: "length [1, 2, 3, 4, 5, 6, 7, 8 :: byte] mod 4 = 0" "length [2, 4, 6, 8 :: byte] mod 4 = 0"
    "length [1, 2, 3, 4 :: byte] mod 4 = 0" "length ([] :: byte list) mod 4 = 0"
    "length [5, 6, 7, 8, 2, 4, 6, 8 :: byte] mod 4 = 0"
    by simp_all
  show ?thesis
    by (intro conjI l h3 determinism [OF h1 h2 h3, of "[7]", THEN conjunct1]
        determinism [OF h1 h2 h3, of "[7]", THEN conjunct2, THEN conjunct1]
        determinism [OF h1 h2 h3, of "[7]", THEN conjunct2, THEN conjunct2, THEN conjunct1]
        determinism [OF h1 h2 h3, of "[7]", THEN conjunct2, THEN conjunct2, THEN conjunct2])
qed

text \<open>
  C9. \<^verbatim>\<open>Size()\<close> returns the constant 32 and \<^verbatim>\<open>BlockSize()\<close> the constant 4, in every
  state of the accumulator, and neither changes the state.
\<close>

theorem Size_BlockSize_constant:
  "digest_Size d = (d, 32) \<and> digest_BlockSize d = (d, 4) \<and> Size = 32 \<and> BlockSize = 4"
  by (simp add: digest_Size_def digest_BlockSize_def Size_def BlockSize_def)

theorem Size_BlockSize_constant_witness:
  "digest_Size (1, 2, 3, 4) = ((1, 2, 3, 4), 32) \<and> digest_BlockSize (1, 2, 3, 4) = ((1, 2, 3, 4), 4)"
  using Size_BlockSize_constant [of "(1, 2, 3, 4)"] by simp

text \<open>
  C10. \<^verbatim>\<open>Write\<close> of a byte sequence of length zero does not panic, returns the count 0
  and a nil error, and leaves the four words unchanged.
\<close>

theorem empty_Write_noop: "digest_Write d [] = (d, Inr (0, None))"
  using Write_aligned [of "[]" d] by (simp add: len_def)

theorem empty_Write_noop_witness: "digest_Write (1, 2, 3, 4) [] = ((1, 2, 3, 4), Inr (0, None))"
  by (rule empty_Write_noop [of "(1, 2, 3, 4)"])

end
